theory Spec2Isabelle
  imports Main "HOL-Library.Word"
begin

section \<open>Data model of \<^verbatim>\<open>ciff.py\<close>\<close>

text \<open>
  A byte of the file is an 8-bit word. Python's integers are unbounded, so the header
  fields and the running counter \<^verbatim>\<open>bytes_read\<close> are \<open>int\<close>. Decoded text
  (\<^verbatim>\<open>bytes.decode('ascii')\<close>) is a \<open>string\<close>; a pixel is the triple of integers that
  \<^verbatim>\<open>struct.unpack("BBB", c)\<close> returns.
\<close>

type_synonym byte = "8 word"
type_synonym pixel = "int \<times> int \<times> int"

text \<open>The fields of class \<^verbatim>\<open>CIFF\<close> (lines 32-47).\<close>

record CIFF =
  magic :: string
  header_size :: int
  content_size :: int
  width :: int
  height :: int
  caption :: string
  tags :: "string list"
  pixels :: "pixel list"
  is_valid :: bool
  error_message :: string

text \<open>The constructor call \<^verbatim>\<open>CIFF()\<close> with all its default arguments (lines 9-47).\<close>

definition CIFF_init :: CIFF where
  "CIFF_init =
     \<lparr>magic = ''CIFF'', header_size = 0, content_size = 0, width = 0, height = 0,
      caption = [], tags = [], pixels = [], is_valid = True, error_message = []\<rparr>"

subsection \<open>Exceptions\<close>

text \<open>
  Every exception the body of \<^verbatim>\<open>parse_ciff_file\<close> can raise: the explicit
  \<^verbatim>\<open>raise Exception(msg)\<close>, the \<^verbatim>\<open>UnicodeDecodeError\<close> of \<^verbatim>\<open>decode('ascii')\<close>
  (offending byte and its position), \<^verbatim>\<open>struct.error\<close> of \<^verbatim>\<open>struct.unpack\<close> (the required
  buffer size) and the \<^verbatim>\<open>IndexError\<close> of \<^verbatim>\<open>tag[-1]\<close> on an empty string. All of them are
  subclasses of \<^verbatim>\<open>Exception\<close>, so the handler at line 325 catches each.
\<close>

datatype exn =
    Exception string
  | UnicodeDecodeError byte nat
  | StructError nat
  | IndexError

definition hex_digit :: "nat \<Rightarrow> char" where
  "hex_digit n = ''0123456789abcdef'' ! (n mod 16)"

definition hex_byte :: "byte \<Rightarrow> string" where
  "hex_byte b = [hex_digit (unat b div 16), hex_digit (unat b mod 16)]"

definition dec_digit :: "nat \<Rightarrow> char" where
  "dec_digit n = ''0123456789'' ! (n mod 10)"

fun str_nat :: "nat \<Rightarrow> string" where
  "str_nat n = (if n < 10 then [dec_digit n] else str_nat (n div 10) @ [dec_digit (n mod 10)])"

declare str_nat.simps [simp del]

text \<open>\<^verbatim>\<open>str(e)\<close>, as line 327 takes it.\<close>

fun str_exn :: "exn \<Rightarrow> string" where
  "str_exn (Exception msg) = msg"
| "str_exn (UnicodeDecodeError b i) =
     [CHR 0x27] @ ''ascii'' @ [CHR 0x27] @ '' codec can'' @ [CHR 0x27] @ ''t decode byte 0x''
       @ hex_byte b @ '' in position '' @ str_nat i @ '': ordinal not in range(128)''"
| "str_exn (StructError n) = ''unpack requires a buffer of '' @ str_nat n @ '' bytes''"
| "str_exn IndexError = ''string index out of range''"

subsection \<open>Library calls\<close>

text \<open>
  \<^verbatim>\<open>bytes.decode('ascii')\<close>: the bytes from left to right; the first byte above 0x7f
  raises, with its index.
\<close>

fun decode_ascii_from :: "nat \<Rightarrow> byte list \<Rightarrow> exn + string" where
  "decode_ascii_from i [] = Inr []"
| "decode_ascii_from i (b # bs) =
     (if b < 0x80 then
        (case decode_ascii_from (Suc i) bs of
           Inl e \<Rightarrow> Inl e
         | Inr s \<Rightarrow> Inr (char_of (unat b) # s))
      else Inl (UnicodeDecodeError b i))"

definition decode_ascii :: "byte list \<Rightarrow> exn + string" where
  "decode_ascii bs = decode_ascii_from 0 bs"

text \<open>
  \<^verbatim>\<open>struct.unpack("Q", b)[0]\<close>: an unsigned 64-bit integer in the byte order of the
  machine, taken to be little-endian here; a buffer that is not 8 bytes long raises.
\<close>

fun le_int :: "byte list \<Rightarrow> int" where
  "le_int [] = 0"
| "le_int (b # bs) = uint b + 256 * le_int bs"

definition unpack_Q :: "byte list \<Rightarrow> exn + int" where
  "unpack_Q b = (if length b \<noteq> 8 then Inl (StructError 8) else Inr (le_int b))"

text \<open>\<^verbatim>\<open>struct.unpack("BBB", c)\<close>: three unsigned bytes.\<close>

fun unpack_BBB :: "byte list \<Rightarrow> exn + pixel" where
  "unpack_BBB [r, g, b] = Inr (uint r, uint g, uint b)"
| "unpack_BBB c = Inl (StructError 3)"

subsection \<open>The file object\<close>

text \<open>
  A file opened with \<^verbatim>\<open>open(file_path, "rb")\<close>: its bytes and the current position.
  \<^verbatim>\<open>read(n)\<close> returns the next \<open>n\<close> bytes, or fewer at the end of the file, and moves
  the position past what it returned.
\<close>

record stream =
  content :: "byte list"
  pos :: nat

definition open_rb :: "byte list \<Rightarrow> stream" where
  "open_rb data = \<lparr>content = data, pos = 0\<rparr>"

definition read :: "nat \<Rightarrow> stream \<Rightarrow> byte list \<times> stream" where
  "read n f =
     (let c = take n (drop (pos f) (content f))
      in (c, f\<lparr>pos := pos f + length c\<rparr>))"

section \<open>\<^verbatim>\<open>CIFF.parse_ciff_file\<close>\<close>

text \<open>
  The variables of the function that live across its statements: the object under
  construction, the byte counter and the open file. A statement sequence returns the
  exception it raised, if any, together with the variables as they were at that point:
  the handler at line 325 goes on with the same \<^verbatim>\<open>new_ciff\<close>.
\<close>

record locals =
  new_ciff :: CIFF
  bytes_read :: int
  ciff_file :: stream

type_synonym outcome = "exn option \<times> locals"

text \<open>Lines 204-213: the magic.\<close>

definition read_magic :: "locals \<Rightarrow> outcome" where
  "read_magic s =
     (let (magic_bytes, f) = read 4 (ciff_file s);
          s = s\<lparr>ciff_file := f\<rparr>
      in if length magic_bytes \<noteq> 4
         then (Some (Exception (''Couldn'' @ [CHR 0x27] @ ''t read 4 magic bytes'')), s)
         else
           let s = s\<lparr>bytes_read := bytes_read s + 4\<rparr>
           in case decode_ascii magic_bytes of
                Inl e \<Rightarrow> (Some e, s)
              | Inr m \<Rightarrow>
                  let s = s\<lparr>new_ciff := (new_ciff s)\<lparr>magic := m\<rparr>\<rparr>
                  in if magic (new_ciff s) \<noteq> ''CIFF''
                     then (Some (Exception ''Error parsing magic bytes''),
                           s\<lparr>new_ciff := (new_ciff s)\<lparr>is_valid := False\<rparr>\<rparr>)
                     else (None, s))"

text \<open>Lines 216-227: the header size and its lower bound.\<close>

definition read_header_size :: "locals \<Rightarrow> outcome" where
  "read_header_size s =
     (let (h_size, f) = read 8 (ciff_file s);
          s = s\<lparr>ciff_file := f\<rparr>
      in if length h_size \<noteq> 8
         then (Some (Exception ''Invalid image format: header size''), s)
         else
           let s = s\<lparr>bytes_read := bytes_read s + 8\<rparr>
           in case unpack_Q h_size of
                Inl e \<Rightarrow> (Some e, s)
              | Inr v \<Rightarrow>
                  let s = s\<lparr>new_ciff := (new_ciff s)\<lparr>header_size := v\<rparr>\<rparr>
                  in if header_size (new_ciff s) < 38
                     then (Some (Exception ''Invalid image format: header size''), s)
                     else (None, s))"

text \<open>Lines 231-238: the content size.\<close>

definition read_content_size :: "locals \<Rightarrow> outcome" where
  "read_content_size s =
     (let (c_size, f) = read 8 (ciff_file s);
          s = s\<lparr>ciff_file := f\<rparr>
      in if length c_size \<noteq> 8
         then (Some (Exception ''Invalid image format: content size''), s)
         else
           let s = s\<lparr>bytes_read := bytes_read s + 8\<rparr>
           in case unpack_Q c_size of
                Inl e \<Rightarrow> (Some e, s)
              | Inr v \<Rightarrow> (None, s\<lparr>new_ciff := (new_ciff s)\<lparr>content_size := v\<rparr>\<rparr>))"

text \<open>Lines 241-248: the width.\<close>

definition read_width :: "locals \<Rightarrow> outcome" where
  "read_width s =
     (let (w, f) = read 8 (ciff_file s);
          s = s\<lparr>ciff_file := f\<rparr>
      in if length w \<noteq> 8
         then (Some (Exception ''Invalid image format: width''), s)
         else
           let s = s\<lparr>bytes_read := bytes_read s + 8\<rparr>
           in case unpack_Q w of
                Inl e \<Rightarrow> (Some e, s)
              | Inr v \<Rightarrow> (None, s\<lparr>new_ciff := (new_ciff s)\<lparr>width := v\<rparr>\<rparr>))"

text \<open>Lines 252-262: the height, and the check of the content size against the dimensions.\<close>

definition read_height :: "locals \<Rightarrow> outcome" where
  "read_height s =
     (let (h, f) = read 8 (ciff_file s);
          s = s\<lparr>ciff_file := f\<rparr>
      in if length h \<noteq> 8
         then (Some (Exception ''Invalid image format: height''), s)
         else
           let s = s\<lparr>bytes_read := bytes_read s + 8\<rparr>
           in case unpack_Q h of
                Inl e \<Rightarrow> (Some e, s)
              | Inr v \<Rightarrow>
                  let s = s\<lparr>new_ciff := (new_ciff s)\<lparr>height := v\<rparr>\<rparr>
                  in if content_size (new_ciff s) \<noteq> width (new_ciff s) * height (new_ciff s) * 3
                     then (Some (Exception
                             ''Invalid image format: content size not equal to width*height*3''), s)
                     else (None, s))"

text \<open>
  Lines 272-280: the caption loop. \<open>char\<close> is the one-character string decoded last.
  The loop has no bound of its own, so it is a partial function: \<open>None\<close> stands for a
  run that never returns.
\<close>

partial_function (option) caption_loop ::
  "string \<Rightarrow> string \<Rightarrow> locals \<Rightarrow> ((exn + string) \<times> locals) option" where
  "caption_loop cap char s =
     (if char \<noteq> [CHR 0x0A] then
        (let cap = cap @ char;
             (c, f) = read 1 (ciff_file s);
             s = s\<lparr>ciff_file := f\<rparr>
         in if length c \<noteq> 1
            then Some (Inl (Exception ''Invalid image: caption''), s)
            else
              let s = s\<lparr>bytes_read := bytes_read s + 1\<rparr>
              in case decode_ascii c of
                   Inl e \<Rightarrow> Some (Inl e, s)
                 | Inr char \<Rightarrow> caption_loop cap char s)
      else Some (Inr cap, s))"

declare caption_loop.simps [code]

text \<open>Lines 265-281: the first caption byte, the loop, and the assignment of the caption.\<close>

definition read_caption :: "locals \<Rightarrow> outcome option" where
  "read_caption s =
     (let cap = [];
          (c, f) = read 1 (ciff_file s);
          s = s\<lparr>ciff_file := f\<rparr>
      in if length c \<noteq> 1
         then Some (Some (Exception ''Invalid image format: caption format''), s)
         else
           let s = s\<lparr>bytes_read := bytes_read s + 1\<rparr>
           in case decode_ascii c of
                Inl e \<Rightarrow> Some (Some e, s)
              | Inr char \<Rightarrow>
                  (case caption_loop cap char s of
                     None \<Rightarrow> None
                   | Some (Inl e, s) \<Rightarrow> Some (Some e, s)
                   | Some (Inr cap, s) \<Rightarrow>
                       Some (None, s\<lparr>new_ciff := (new_ciff s)\<lparr>caption := cap\<rparr>\<rparr>)))"

text \<open>
  Lines 287-302: the tag loop, with the list of finished tags and the tag being read.
  Its guard is an inequality between the counter and the header size.
\<close>

partial_function (option) tag_loop ::
  "string list \<Rightarrow> string \<Rightarrow> locals \<Rightarrow> ((exn + string list) \<times> locals) option" where
  "tag_loop tgs tag s =
     (if bytes_read s \<noteq> header_size (new_ciff s) then
        (let (c, f) = read 1 (ciff_file s);
             s = s\<lparr>ciff_file := f\<rparr>
         in if length c \<noteq> 1
            then Some (Inl (Exception ''Invalid image: tags''), s)
            else
              let s = s\<lparr>bytes_read := bytes_read s + 1\<rparr>
              in case decode_ascii c of
                   Inl e \<Rightarrow> Some (Inl e, s)
                 | Inr char \<Rightarrow>
                     if char = [CHR 0x0A]
                     then Some (Inl (Exception ''Invalid image: tags''), s)
                     else
                       let tag = tag @ char;
                           (tgs, tag) = (if char = [CHR 0x00] then (tgs @ [tag], [])
                                         else (tgs, tag))
                       in if bytes_read s = header_size (new_ciff s) \<and> char \<noteq> [CHR 0x00]
                          then Some (Inl (Exception ''Invalid image: tags''), s)
                          else tag_loop tgs tag s)
      else Some (Inr tgs, s))"

declare tag_loop.simps [code]

text \<open>Lines 306-308: every collected tag must end with a null; \<^verbatim>\<open>tag[-1]\<close> needs a character.\<close>

fun check_tags :: "string list \<Rightarrow> exn option" where
  "check_tags [] = None"
| "check_tags (tag # rest) =
     (if tag = [] then Some IndexError
      else if last tag \<noteq> CHR 0x00 then Some (Exception ''Invalid image: tags'')
      else check_tags rest)"

text \<open>Lines 284-309: the tags.\<close>

definition read_tags :: "locals \<Rightarrow> outcome option" where
  "read_tags s =
     (case tag_loop [] [] s of
        None \<Rightarrow> None
      | Some (Inl e, s) \<Rightarrow> Some (Some e, s)
      | Some (Inr tgs, s) \<Rightarrow>
          (case check_tags tgs of
             Some e \<Rightarrow> Some (Some e, s)
           | None \<Rightarrow> Some (None, s\<lparr>new_ciff := (new_ciff s)\<lparr>tags := tgs\<rparr>\<rparr>)))"

text \<open>Lines 312-318: the pixel loop; each pixel is appended to \<^verbatim>\<open>new_ciff.pixels\<close> at once.\<close>

partial_function (option) pixel_loop :: "locals \<Rightarrow> outcome option" where
  "pixel_loop s =
     (if bytes_read s < header_size (new_ciff s) + content_size (new_ciff s) then
        (let (c, f) = read 3 (ciff_file s);
             s = s\<lparr>ciff_file := f\<rparr>
         in if length c \<noteq> 3
            then Some (Some (Exception ''Invalid image: content''), s)
            else
              let s = s\<lparr>bytes_read := bytes_read s + 3\<rparr>
              in case unpack_BBB c of
                   Inl e \<Rightarrow> Some (Some e, s)
                 | Inr px \<Rightarrow>
                     pixel_loop
                       (s\<lparr>new_ciff := (new_ciff s)\<lparr>pixels := pixels (new_ciff s) @ [px]\<rparr>\<rparr>))
      else Some (None, s))"

declare pixel_loop.simps [code]

text \<open>Lines 321-323: the file must end here.\<close>

definition check_eof :: "locals \<Rightarrow> outcome" where
  "check_eof s =
     (let (of_byte, f) = read 1 (ciff_file s);
          s = s\<lparr>ciff_file := f\<rparr>
      in if length of_byte \<noteq> 0
         then (Some (Exception ''Invalid image: content''), s)
         else (None, s))"

text \<open>
  Statement sequencing inside the \<^verbatim>\<open>try\<close>: a raised exception skips the rest, and a run
  that does not return has no rest.
\<close>

definition and_then :: "outcome option \<Rightarrow> (locals \<Rightarrow> outcome option) \<Rightarrow> outcome option" where
  "and_then m k =
     (case m of
        None \<Rightarrow> None
      | Some (Some e, s) \<Rightarrow> Some (Some e, s)
      | Some (None, s) \<Rightarrow> k s)"

text \<open>Lines 202-323: the body of the \<^verbatim>\<open>try\<close>.\<close>

definition try_body :: "locals \<Rightarrow> outcome option" where
  "try_body s0 =
     and_then (Some (read_magic s0)) (\<lambda>s.
     and_then (Some (read_header_size s)) (\<lambda>s.
     and_then (Some (read_content_size s)) (\<lambda>s.
     and_then (Some (read_width s)) (\<lambda>s.
     and_then (Some (read_height s)) (\<lambda>s.
     and_then (read_caption s) (\<lambda>s.
     and_then (read_tags s) (\<lambda>s.
     and_then (pixel_loop s) (\<lambda>s.
     Some (check_eof s)))))))))"

text \<open>Lines 198-202: the variables when the \<^verbatim>\<open>try\<close> is entered and the file is open.\<close>

definition initial :: "byte list \<Rightarrow> locals" where
  "initial data = \<lparr>new_ciff = CIFF_init, bytes_read = 0, ciff_file = open_rb data\<rparr>"

text \<open>Lines 325-327: the handler.\<close>

definition handler :: "outcome \<Rightarrow> CIFF" where
  "handler r =
     (case r of
        (None, s) \<Rightarrow> new_ciff s
      | (Some e, s) \<Rightarrow> (new_ciff s)\<lparr>is_valid := False, error_message := str_exn e\<rparr>)"

text \<open>
  Lines 198-329, on the bytes of the file at \<^verbatim>\<open>file_path\<close>. \<open>parse_ciff_run\<close> keeps,
  beside the returned object, the exception and the variables at the end of the
  \<^verbatim>\<open>try\<close>, so that what was read from the file can be stated. The file is taken to
  exist and to be readable: the model starts from its bytes. (A failing \<^verbatim>\<open>open\<close> raises
  inside the same \<^verbatim>\<open>try\<close> and is caught by the same handler.)
\<close>

definition parse_ciff_run :: "byte list \<Rightarrow> (CIFF \<times> outcome) option" where
  "parse_ciff_run data =
     (case try_body (initial data) of
        None \<Rightarrow> None
      | Some r \<Rightarrow> Some (handler r, r))"

definition parse_ciff_file :: "byte list \<Rightarrow> CIFF option" where
  "parse_ciff_file data = map_option fst (parse_ciff_run data)"

section \<open>Notions used in the statements and proofs\<close>

text \<open>The 8-byte header field that starts at offset \<open>off\<close> of the file, read as line 224 does.\<close>

definition field_at :: "byte list \<Rightarrow> nat \<Rightarrow> int" where
  "field_at data off = le_int (take 8 (drop off data))"

text \<open>
  The counter agrees with the position of the file: it holds as long as no read came
  back short.
\<close>

definition synced :: "locals \<Rightarrow> bool" where
  "synced s \<longleftrightarrow>
     bytes_read s = int (pos (ciff_file s)) \<and> pos (ciff_file s) \<le> length (content (ciff_file s))"

text \<open>A stored tag: characters other than the null, then one null.\<close>

definition tag_ok :: "string \<Rightarrow> bool" where
  "tag_ok t \<longleftrightarrow> (\<exists>u. t = u @ [CHR 0x00] \<and> CHR 0x00 \<notin> set u)"

text \<open>Whatever a statement sequence raises has a message.\<close>

definition raises_ok :: "outcome option \<Rightarrow> bool" where
  "raises_ok m \<longleftrightarrow> (\<forall>e s. m = Some (Some e, s) \<longrightarrow> str_exn e \<noteq> [])"

section \<open>Example files\<close>

text \<open>
  The file of the scenario: magic, header size 39, content size 3, width 1, height 1,
  an empty caption, the tag \<open>x\<close> with its null, and one pixel.
\<close>

definition example_file :: "byte list" where
  "example_file =
     [0x43, 0x49, 0x46, 0x46,  39, 0, 0, 0, 0, 0, 0, 0,  3, 0, 0, 0, 0, 0, 0, 0,
      1, 0, 0, 0, 0, 0, 0, 0,  1, 0, 0, 0, 0, 0, 0, 0,
      0x0A,  0x78, 0x00,  10, 20, 30]"

definition example_result :: CIFF where
  "example_result =
     \<lparr>magic = ''CIFF'', header_size = 39, content_size = 3, width = 1, height = 1,
      caption = [], tags = [[CHR ''x'', CHR 0x00]], pixels = [(10, 20, 30)],
      is_valid = True, error_message = []\<rparr>"

text \<open>The same file with content size 4, which does not fit one pixel.\<close>

definition mismatch_file :: "byte list" where
  "mismatch_file =
     [0x43, 0x49, 0x46, 0x46,  39, 0, 0, 0, 0, 0, 0, 0,  4, 0, 0, 0, 0, 0, 0, 0,
      1, 0, 0, 0, 0, 0, 0, 0,  1, 0, 0, 0, 0, 0, 0, 0,
      0x0A,  0x78, 0x00,  10, 20, 30]"

text \<open>The same file with the magic \<open>CIGF\<close>.\<close>

definition bad_magic_file :: "byte list" where
  "bad_magic_file =
     [0x43, 0x49, 0x47, 0x46,  39, 0, 0, 0, 0, 0, 0, 0,  3, 0, 0, 0, 0, 0, 0, 0,
      1, 0, 0, 0, 0, 0, 0, 0,  1, 0, 0, 0, 0, 0, 0, 0,
      0x0A,  0x78, 0x00,  10, 20, 30]"

text \<open>An image without pixels whose caption is a single null character, and one empty tag.\<close>

definition nul_caption_file :: "byte list" where
  "nul_caption_file =
     [0x43, 0x49, 0x46, 0x46,  39, 0, 0, 0, 0, 0, 0, 0,  0, 0, 0, 0, 0, 0, 0, 0,
      0, 0, 0, 0, 0, 0, 0, 0,  0, 0, 0, 0, 0, 0, 0, 0,
      0x00, 0x0A,  0x00]"

definition nul_caption_result :: CIFF where
  "nul_caption_result =
     \<lparr>magic = ''CIFF'', header_size = 39, content_size = 0, width = 0, height = 0,
      caption = [CHR 0x00], tags = [[CHR 0x00]], pixels = [],
      is_valid = True, error_message = []\<rparr>"

text \<open>
  An image without pixels whose header of 38 bytes ends with the newline of the caption
  \<open>a\<close>: no tag follows.
\<close>

definition no_tags_file :: "byte list" where
  "no_tags_file =
     [0x43, 0x49, 0x46, 0x46,  38, 0, 0, 0, 0, 0, 0, 0,  0, 0, 0, 0, 0, 0, 0, 0,
      0, 0, 0, 0, 0, 0, 0, 0,  0, 0, 0, 0, 0, 0, 0, 0,
      0x61, 0x0A]"

definition no_tags_result :: CIFF where
  "no_tags_result =
     \<lparr>magic = ''CIFF'', header_size = 38, content_size = 0, width = 0, height = 0,
      caption = ''a'', tags = [], pixels = [],
      is_valid = True, error_message = []\<rparr>"

text \<open>
  Variables as the tag loop can find them after a long caption: the counter is past the
  header size, and two bytes of the file are still unread.
\<close>

definition overshoot_state :: locals where
  "overshoot_state =
     \<lparr>new_ciff = CIFF_init\<lparr>header_size := 38\<rparr>, bytes_read = 39,
      ciff_file = \<lparr>content = [0x00, 0x00], pos = 0\<rparr>\<rparr>"

section \<open>Library facts\<close>

lemma decode_ascii_from_length:
  "decode_ascii_from i bs = Inr s \<Longrightarrow> length s = length bs"
  by (induction bs arbitrary: i s) (auto split: if_splits sum.splits)

lemma decode_ascii_length: "decode_ascii bs = Inr s \<Longrightarrow> length s = length bs"
  unfolding decode_ascii_def by (rule decode_ascii_from_length)

lemma single_not_in: "length ch = Suc 0 \<Longrightarrow> ch \<noteq> [c] \<Longrightarrow> c \<notin> set ch"
  by (cases ch) auto

lemma read1_synced:
  assumes "synced s" "read (Suc 0) (ciff_file s) = (c, f)" "length c = Suc 0"
  shows "synced (s\<lparr>ciff_file := f, bytes_read := bytes_read s + 1\<rparr>)"
    and "content f = content (ciff_file s)"
  using assms by (auto simp: synced_def read_def Let_def)

lemma read_full: "length (fst (read n f)) = n \<Longrightarrow> 0 < n \<Longrightarrow> pos f + n \<le> length (content f)"
  by (auto simp add: read_def Let_def)

lemma read_snd: "content (snd (read n f)) = content f" "pos (snd (read n f)) = pos f + length (fst (read n f))"
  by (simp_all add: read_def Let_def)

lemma read_measure:
  assumes "read n f = (c, f')" "length c = n" "0 < n"
  shows "length (content f') - pos f' < length (content f) - pos f"
  using assms read_full [of n f] read_snd [of n f] by simp


lemma read_eq:
  "pos f + n \<le> length (content f) \<Longrightarrow>
     read n f = (take n (drop (pos f) (content f)), f\<lparr>pos := pos f + n\<rparr>)"
  by (simp add: read_def Let_def min_def)

lemma read_short:
  "\<not> pos f + n \<le> length (content f) \<Longrightarrow> 0 < n \<Longrightarrow> length (fst (read n f)) \<noteq> n"
  by (auto simp add: read_def Let_def)

lemma le_int_nonneg: "0 \<le> le_int bs"
  by (induction bs) simp_all

lemma decode_ascii_from_Inl: "decode_ascii_from i bs = Inl e \<Longrightarrow> str_exn e \<noteq> []"
  by (induction bs arbitrary: i) (auto split: if_splits sum.splits)

lemma decode_ascii_Inl: "decode_ascii bs = Inl e \<Longrightarrow> str_exn e \<noteq> []"
  unfolding decode_ascii_def by (rule decode_ascii_from_Inl)

lemma unpack_Q_Inl: "unpack_Q bs = Inl e \<Longrightarrow> str_exn e \<noteq> []"
  by (auto simp: unpack_Q_def split: if_splits)

lemma unpack_BBB_Inl: "unpack_BBB bs = Inl e \<Longrightarrow> str_exn e \<noteq> []"
  by (cases bs rule: unpack_BBB.cases) auto


section \<open>Termination of the loops\<close>

lemma caption_loop_total: "\<exists>r. caption_loop cap char s = Some r"
proof (induction "length (content (ciff_file s)) - pos (ciff_file s)" arbitrary: cap char s
    rule: less_induct)
  case less
  obtain c f where rd: "read (Suc 0) (ciff_file s) = (c, f)"
    by (cases "read (Suc 0) (ciff_file s)")
  show ?case
  proof (cases "char \<noteq> [CHR 0x0A] \<and> length c = Suc 0 \<and> (\<exists>ch. decode_ascii c = Inr ch)")
    case False
    with rd show ?thesis
      by (subst caption_loop.simps) (auto simp: Let_def split: sum.splits)
  next
    case True
    then obtain ch where ch: "decode_ascii c = Inr ch" by blast
    let ?s = "s\<lparr>ciff_file := f, bytes_read := bytes_read s + 1\<rparr>"
    have "length (content (ciff_file ?s)) - pos (ciff_file ?s)
        < length (content (ciff_file s)) - pos (ciff_file s)"
      using read_measure [OF rd] True by simp
    from less [OF this] obtain r where "caption_loop (cap @ char) ch ?s = Some r" by blast
    with True rd ch show ?thesis by (subst caption_loop.simps) (simp add: Let_def)
  qed
qed

lemma tag_loop_total: "\<exists>r. tag_loop tgs tag s = Some r"
proof (induction "length (content (ciff_file s)) - pos (ciff_file s)" arbitrary: tgs tag s
    rule: less_induct)
  case less
  obtain c f where rd: "read (Suc 0) (ciff_file s) = (c, f)"
    by (cases "read (Suc 0) (ciff_file s)")
  let ?s = "s\<lparr>ciff_file := f, bytes_read := bytes_read s + 1\<rparr>"
  show ?case
  proof (cases "bytes_read s \<noteq> header_size (new_ciff s) \<and> length c = Suc 0
      \<and> (\<exists>ch. decode_ascii c = Inr ch \<and> ch \<noteq> [CHR 0x0A]
            \<and> \<not> (bytes_read ?s = header_size (new_ciff ?s) \<and> ch \<noteq> [CHR 0x00]))")
    case False
    with rd show ?thesis
      by (subst tag_loop.simps) (auto simp: Let_def split: sum.splits)
  next
    case True
    then obtain ch where ch: "decode_ascii c = Inr ch" "ch \<noteq> [CHR 0x0A]"
      "\<not> (bytes_read ?s = header_size (new_ciff ?s) \<and> ch \<noteq> [CHR 0x00])" by blast
    have "length (content (ciff_file ?s)) - pos (ciff_file ?s)
        < length (content (ciff_file s)) - pos (ciff_file s)"
      using read_measure [OF rd] True by simp
    from less [OF this] obtain r where
      "tag_loop (if ch = [CHR 0x00] then tgs @ [tag @ ch] else tgs)
                (if ch = [CHR 0x00] then [] else tag @ ch) ?s = Some r" by blast
    with True rd ch show ?thesis by (subst tag_loop.simps) (auto simp: Let_def)
  qed
qed

lemma pixel_loop_total: "\<exists>r. pixel_loop s = Some r"
proof (induction "length (content (ciff_file s)) - pos (ciff_file s)" arbitrary: s
    rule: less_induct)
  case less
  obtain c f where rd: "read 3 (ciff_file s) = (c, f)"
    by (cases "read 3 (ciff_file s)")
  show ?case
  proof (cases "bytes_read s < header_size (new_ciff s) + content_size (new_ciff s)
      \<and> length c = 3 \<and> (\<exists>px. unpack_BBB c = Inr px)")
    case False
    with rd show ?thesis
      by (subst pixel_loop.simps) (auto simp: Let_def split: sum.splits)
  next
    case True
    then obtain px where px: "unpack_BBB c = Inr px" by blast
    let ?s = "s\<lparr>ciff_file := f, bytes_read := bytes_read s + 3,
                 new_ciff := (new_ciff s)\<lparr>pixels := pixels (new_ciff s) @ [px]\<rparr>\<rparr>"
    have "length (content (ciff_file ?s)) - pos (ciff_file ?s)
        < length (content (ciff_file s)) - pos (ciff_file s)"
      using read_measure [OF rd] True by simp
    from less [OF this] obtain r where "pixel_loop ?s = Some r" by blast
    with True rd px show ?thesis by (subst pixel_loop.simps) (simp add: Let_def)
  qed
qed

lemma read_caption_total: "\<exists>r. read_caption s = Some r"
proof -
  obtain c f where rd: "read (Suc 0) (ciff_file s) = (c, f)"
    by (cases "read (Suc 0) (ciff_file s)")
  show ?thesis
  proof (cases "length c = Suc 0 \<and> (\<exists>ch. decode_ascii c = Inr ch)")
    case False
    with rd show ?thesis
      by (auto simp: read_caption_def Let_def split: sum.splits)
  next
    case True
    then obtain ch where ch: "decode_ascii c = Inr ch" by blast
    obtain r where "caption_loop [] ch (s\<lparr>ciff_file := f, bytes_read := bytes_read s + 1\<rparr>) = Some r"
      using caption_loop_total by blast
    with True rd ch show ?thesis
      by (cases r) (auto simp: read_caption_def Let_def split: sum.splits)
  qed
qed

lemma read_tags_total: "\<exists>r. read_tags s = Some r"
proof -
  obtain r where "tag_loop [] [] s = Some r" using tag_loop_total by blast
  then show ?thesis
    by (cases r) (auto simp: read_tags_def split: sum.splits option.splits)
qed

lemma and_then_total:
  assumes "\<exists>r. m = Some r" "\<And>s. \<exists>r. k s = Some r"
  shows "\<exists>r. and_then m k = Some r"
  using assms by (auto simp: and_then_def split: option.splits)

lemma try_body_total: "\<exists>r. try_body s = Some r"
  unfolding try_body_def
  by (intro and_then_total read_caption_total read_tags_total pixel_loop_total) simp_all

text \<open>
  Once the counter is past the header size the guard of the tag loop stays true, and the
  loop can only be left by an exception.
\<close>

lemma tag_loop_overshoot_raises:
  "tag_loop tgs tag s = Some y \<Longrightarrow>
     header_size (new_ciff s) < bytes_read s \<longrightarrow> (\<exists>e s'. y = (Inl e, s'))"
proof (induction rule: tag_loop.raw_induct [rotated 1, consumes 1, case_names step])
  case (step loop tgs tag s y)
  show ?case
  proof
    assume over: "header_size (new_ciff s) < bytes_read s"
    obtain c f where rd: "read (Suc 0) (ciff_file s) = (c, f)"
      by (cases "read (Suc 0) (ciff_file s)")
    let ?s = "s\<lparr>ciff_file := f, bytes_read := bytes_read s + 1\<rparr>"
    show "\<exists>e s'. y = (Inl e, s')"
    proof (cases "length c = Suc 0 \<and> (\<exists>ch. decode_ascii c = Inr ch \<and> ch \<noteq> [CHR 0x0A])")
      case False
      with step(2) over rd show ?thesis
        by (auto simp: Let_def split: sum.splits if_splits)
    next
      case True
      then obtain ch where ch: "decode_ascii c = Inr ch" "ch \<noteq> [CHR 0x0A]" by blast
      from step(2) over rd True ch
      have rec: "loop (if ch = [CHR 0x00] then tgs @ [tag @ ch] else tgs)
                      (if ch = [CHR 0x00] then [] else tag @ ch) ?s = Some y"
        by (simp add: Let_def split: if_splits)
      have "header_size (new_ciff ?s) < bytes_read ?s" using over by simp
      with step(1) [OF rec] show ?thesis by blast
    qed
  qed
qed

section \<open>Loop invariants\<close>

lemma caption_loop_Inr:
  "caption_loop cap char s = Some y \<Longrightarrow>
   (\<forall>cap' s'. y = (Inr cap', s') \<longrightarrow> synced s \<longrightarrow> length char = 1 \<longrightarrow> CHR 0x0A \<notin> set cap \<longrightarrow>
      synced s' \<and> new_ciff s' = new_ciff s \<and> content (ciff_file s') = content (ciff_file s)
      \<and> CHR 0x0A \<notin> set cap')"
proof (induction rule: caption_loop.raw_induct [rotated 1, consumes 1, case_names step])
  case (step loop cap char s y)
  show ?case
  proof (intro allI impI)
    fix cap' s'
    assume y: "y = (Inr cap', s')" and sy: "synced s" and len: "length char = 1"
      and nl: "CHR 0x0A \<notin> set cap"
    show "synced s' \<and> new_ciff s' = new_ciff s \<and> content (ciff_file s') = content (ciff_file s)
      \<and> CHR 0x0A \<notin> set cap'"
    proof (cases "char = [CHR 0x0A]")
      case True
      with step(2) y nl sy show ?thesis by simp
    next
      case False
      obtain c f where rd: "read (Suc 0) (ciff_file s) = (c, f)"
        by (cases "read (Suc 0) (ciff_file s)")
      from step(2) False rd y have c1: "length c = Suc 0"
        by (simp add: Let_def split: if_splits)
      with step(2) False rd y obtain ch where dec: "decode_ascii c = Inr ch"
        and rec: "loop (cap @ char) ch (s\<lparr>ciff_file := f, bytes_read := bytes_read s + 1\<rparr>) = Some y"
        by (simp add: Let_def split: sum.splits)
      let ?s1 = "s\<lparr>ciff_file := f, bytes_read := bytes_read s + 1\<rparr>"
      have l1: "length ch = 1" using decode_ascii_length [OF dec] c1 by simp
      have n1: "CHR 0x0A \<notin> set (cap @ char)"
        using nl single_not_in [OF _ False] len by simp
      have sy1: "synced ?s1" by (rule read1_synced(1) [OF sy rd c1])
      from step(1) [OF rec] y sy1 l1 n1
      have "synced s' \<and> new_ciff s' = new_ciff ?s1
          \<and> content (ciff_file s') = content (ciff_file ?s1) \<and> CHR 0x0A \<notin> set cap'"
        by blast
      then show ?thesis
        using read1_synced(2) [OF sy rd c1] by simp
    qed
  qed
qed

lemma tag_loop_Inr:
  "tag_loop tgs tag s = Some y \<Longrightarrow>
   (\<forall>tgs' s'. y = (Inr tgs', s') \<longrightarrow> synced s \<longrightarrow> (\<forall>t\<in>set tgs. tag_ok t) \<longrightarrow>
        CHR 0x00 \<notin> set tag \<longrightarrow>
      synced s' \<and> new_ciff s' = new_ciff s \<and> content (ciff_file s') = content (ciff_file s)
      \<and> bytes_read s' = header_size (new_ciff s) \<and> (\<forall>t\<in>set tgs'. tag_ok t))"
proof (induction rule: tag_loop.raw_induct [rotated 1, consumes 1, case_names step])
  case (step loop tgs tag s y)
  show ?case
  proof (intro allI impI)
    fix tgs' s'
    assume y: "y = (Inr tgs', s')" and sy: "synced s" and ok: "\<forall>t\<in>set tgs. tag_ok t"
      and nz: "CHR 0x00 \<notin> set tag"
    show "synced s' \<and> new_ciff s' = new_ciff s \<and> content (ciff_file s') = content (ciff_file s)
      \<and> bytes_read s' = header_size (new_ciff s) \<and> (\<forall>t\<in>set tgs'. tag_ok t)"
    proof (cases "bytes_read s = header_size (new_ciff s)")
      case True
      with step(2) y ok sy show ?thesis by simp
    next
      case False
      obtain c f where rd: "read (Suc 0) (ciff_file s) = (c, f)"
        by (cases "read (Suc 0) (ciff_file s)")
      from step(2) False rd y have c1: "length c = Suc 0"
        by (simp add: Let_def split: if_splits)
      let ?s = "s\<lparr>ciff_file := f, bytes_read := bytes_read s + 1\<rparr>"
      from step(2) False rd y c1 obtain ch where dec: "decode_ascii c = Inr ch"
        and nl: "ch \<noteq> [CHR 0x0A]"
        and rec: "loop (if ch = [CHR 0x00] then tgs @ [tag @ ch] else tgs)
                       (if ch = [CHR 0x00] then [] else tag @ ch) ?s = Some y"
        by (simp add: Let_def split: sum.splits if_splits)
      have len: "length ch = Suc 0" using decode_ascii_length [OF dec] c1 by simp
      have ok': "\<forall>t\<in>set (if ch = [CHR 0x00] then tgs @ [tag @ ch] else tgs). tag_ok t"
        using ok nz by (auto simp: tag_ok_def)
      have nz': "CHR 0x00 \<notin> set (if ch = [CHR 0x00] then [] else tag @ ch)"
        using nz single_not_in [OF len] by auto
      show ?thesis
        using step(1) [OF rec] y read1_synced [OF sy rd c1] ok' nz' by simp
    qed
  qed
qed

lemma read3_synced:
  assumes "synced s" "read 3 (ciff_file s) = (c, f)" "length c = 3"
  shows "synced (s\<lparr>ciff_file := f, bytes_read := bytes_read s + 3\<rparr>)"
    and "content f = content (ciff_file s)"
  using assms by (auto simp: synced_def read_def Let_def)

lemma pixel_loop_None:
  "pixel_loop s = Some y \<Longrightarrow>
   (\<forall>s'. y = (None, s') \<longrightarrow> synced s \<longrightarrow>
        bytes_read s \<le> header_size (new_ciff s) + content_size (new_ciff s) \<longrightarrow>
        3 dvd (header_size (new_ciff s) + content_size (new_ciff s) - bytes_read s) \<longrightarrow>
      synced s' \<and> content (ciff_file s') = content (ciff_file s)
      \<and> bytes_read s' = header_size (new_ciff s) + content_size (new_ciff s)
      \<and> (\<exists>pxs. new_ciff s' = (new_ciff s)\<lparr>pixels := pixels (new_ciff s) @ pxs\<rparr>
            \<and> 3 * int (length pxs) =
                header_size (new_ciff s) + content_size (new_ciff s) - bytes_read s))"
proof (induction rule: pixel_loop.raw_induct [rotated 1, consumes 1, case_names step])
  case (step loop s y)
  let ?T = "header_size (new_ciff s) + content_size (new_ciff s)"
  show ?case
  proof (intro allI impI)
    fix s'
    assume y: "y = (None, s')" and sy: "synced s" and le: "bytes_read s \<le> ?T"
      and dv: "3 dvd (?T - bytes_read s)"
    show "synced s' \<and> content (ciff_file s') = content (ciff_file s)
      \<and> bytes_read s' = ?T
      \<and> (\<exists>pxs. new_ciff s' = (new_ciff s)\<lparr>pixels := pixels (new_ciff s) @ pxs\<rparr>
            \<and> 3 * int (length pxs) = ?T - bytes_read s)"
    proof (cases "bytes_read s < ?T")
      case False
      with step(2) y sy le show ?thesis by simp
    next
      case True
      obtain c f where rd: "read 3 (ciff_file s) = (c, f)"
        by (cases "read 3 (ciff_file s)")
      from step(2) True rd y have c3: "length c = 3"
        by (simp add: Let_def split: if_splits)
      let ?s1 = "s\<lparr>ciff_file := f, bytes_read := bytes_read s + 3\<rparr>"
      from step(2) True rd y c3 obtain px where
        rec: "loop (?s1\<lparr>new_ciff := (new_ciff ?s1)\<lparr>pixels := pixels (new_ciff ?s1) @ [px]\<rparr>\<rparr>) = Some y"
        by (simp add: Let_def split: sum.splits)
      let ?s2 = "?s1\<lparr>new_ciff := (new_ciff ?s1)\<lparr>pixels := pixels (new_ciff ?s1) @ [px]\<rparr>\<rparr>"
      have sy2: "synced ?s2" using read3_synced(1) [OF sy rd c3] by (simp add: synced_def)
      from dv obtain k where k: "?T - bytes_read s = 3 * k" by (auto simp: dvd_def)
      with True have "1 \<le> k" by simp
      with k have le2: "bytes_read ?s2 \<le> header_size (new_ciff ?s2) + content_size (new_ciff ?s2)"
        by simp
      from k have dv2: "3 dvd (header_size (new_ciff ?s2) + content_size (new_ciff ?s2) - bytes_read ?s2)"
        by (simp add: dvd_def) (rule exI [of _ "k - 1"], simp)
      from step(1) [OF rec] y sy2 le2 dv2
      obtain pxs where
        a: "synced s'" "content (ciff_file s') = content (ciff_file ?s2)"
           "bytes_read s' = header_size (new_ciff ?s2) + content_size (new_ciff ?s2)"
        and b: "new_ciff s' = (new_ciff ?s2)\<lparr>pixels := pixels (new_ciff ?s2) @ pxs\<rparr>"
        and c: "3 * int (length pxs) =
                header_size (new_ciff ?s2) + content_size (new_ciff ?s2) - bytes_read ?s2"
        by blast
      have "new_ciff s' = (new_ciff s)\<lparr>pixels := pixels (new_ciff s) @ (px # pxs)\<rparr>"
        using b by simp
      moreover have "3 * int (length (px # pxs)) = ?T - bytes_read s"
        using c by simp
      ultimately show ?thesis
        using a read3_synced(2) [OF sy rd c3] by (intro conjI exI [of _ "px # pxs"]) simp_all
    qed
  qed
qed

section \<open>Raised exceptions carry a message\<close>

lemma read_magic_raises: "raises_ok (Some (read_magic s))"
  by (auto simp: raises_ok_def read_magic_def Let_def split: prod.splits if_splits sum.splits
      dest: decode_ascii_Inl)

lemma read_header_size_raises: "raises_ok (Some (read_header_size s))"
  by (auto simp: raises_ok_def read_header_size_def Let_def split: prod.splits if_splits sum.splits
      dest: unpack_Q_Inl)

lemma read_content_size_raises: "raises_ok (Some (read_content_size s))"
  by (auto simp: raises_ok_def read_content_size_def Let_def split: prod.splits if_splits sum.splits
      dest: unpack_Q_Inl)

lemma read_width_raises: "raises_ok (Some (read_width s))"
  by (auto simp: raises_ok_def read_width_def Let_def split: prod.splits if_splits sum.splits
      dest: unpack_Q_Inl)

lemma read_height_raises: "raises_ok (Some (read_height s))"
  by (auto simp: raises_ok_def read_height_def Let_def split: prod.splits if_splits sum.splits
      dest: unpack_Q_Inl)

lemma check_eof_raises: "raises_ok (Some (check_eof s))"
  by (auto simp: raises_ok_def check_eof_def Let_def split: prod.splits if_splits)

lemma caption_loop_Inl:
  "caption_loop cap char s = Some y \<Longrightarrow> \<forall>e s'. y = (Inl e, s') \<longrightarrow> str_exn e \<noteq> []"
proof (induction rule: caption_loop.raw_induct [rotated 1, consumes 1, case_names step])
  case (step loop cap char s y)
  from step(2) show ?case
    by (auto simp: Let_def split: if_splits prod.splits sum.splits
        dest: decode_ascii_Inl step(1))
qed

lemma tag_loop_Inl:
  "tag_loop tgs tag s = Some y \<Longrightarrow> \<forall>e s'. y = (Inl e, s') \<longrightarrow> str_exn e \<noteq> []"
proof (induction rule: tag_loop.raw_induct [rotated 1, consumes 1, case_names step])
  case (step loop tgs tag s y)
  from step(2) show ?case
    by (auto simp: Let_def split: if_splits prod.splits sum.splits
        dest: decode_ascii_Inl step(1))
qed

lemma pixel_loop_raises: "raises_ok (pixel_loop s)"
proof -
  have "pixel_loop s = Some y \<Longrightarrow> \<forall>e s'. y = (Some e, s') \<longrightarrow> str_exn e \<noteq> []" for y
  proof (induction rule: pixel_loop.raw_induct [rotated 1, consumes 1, case_names step])
    case (step loop s y)
    from step(2) show ?case
      by (auto simp: Let_def split: if_splits prod.splits sum.splits
          dest: unpack_BBB_Inl step(1))
  qed
  then show ?thesis by (simp add: raises_ok_def)
qed

lemma check_tags_Some: "check_tags tgs = Some e \<Longrightarrow> str_exn e \<noteq> []"
  by (induction tgs) (auto split: if_splits)

lemma read_caption_raises: "raises_ok (read_caption s)"
  by (auto simp: raises_ok_def read_caption_def Let_def
      split: prod.splits if_splits sum.splits option.splits
      dest: decode_ascii_Inl caption_loop_Inl)

lemma read_tags_raises: "raises_ok (read_tags s)"
  by (auto simp: raises_ok_def read_tags_def Let_def
      split: prod.splits if_splits sum.splits option.splits
      dest: tag_loop_Inl check_tags_Some)

lemma and_then_raises:
  assumes "raises_ok m" "\<And>s. raises_ok (k s)"
  shows "raises_ok (and_then m k)"
  using assms by (auto simp: raises_ok_def and_then_def split: option.splits prod.splits)

lemma try_body_raises: "raises_ok (try_body s)"
  unfolding try_body_def
  by (intro and_then_raises read_magic_raises read_header_size_raises read_content_size_raises
      read_width_raises read_height_raises read_caption_raises read_tags_raises
      pixel_loop_raises check_eof_raises)

lemma and_then_NoneD:
  "and_then m k = Some (None, s) \<Longrightarrow> \<exists>s1. m = Some (None, s1) \<and> k s1 = Some (None, s)"
  by (auto simp: and_then_def split: option.splits prod.splits)

lemma try_body_NoneD:
  assumes "try_body s0 = Some (None, s)"
  shows "\<exists>s1 s2 s3 s4 s5 s6 s7 s8.
     read_magic s0 = (None, s1) \<and> read_header_size s1 = (None, s2) \<and>
     read_content_size s2 = (None, s3) \<and> read_width s3 = (None, s4) \<and>
     read_height s4 = (None, s5) \<and> read_caption s5 = Some (None, s6) \<and>
     read_tags s6 = Some (None, s7) \<and> pixel_loop s7 = Some (None, s8) \<and>
     check_eof s8 = (None, s)"
  using assms unfolding try_body_def
  by (fastforce dest!: and_then_NoneD)

section \<open>The path on which nothing is raised\<close>

lemma read_magic_None:
  assumes "read_magic s = (None, s')"
  shows "pos (ciff_file s) + 4 \<le> length (content (ciff_file s))"
    and "decode_ascii (take 4 (drop (pos (ciff_file s)) (content (ciff_file s)))) = Inr ''CIFF''"
    and "s' = s\<lparr>ciff_file := (ciff_file s)\<lparr>pos := pos (ciff_file s) + 4\<rparr>,
                bytes_read := bytes_read s + 4,
                new_ciff := (new_ciff s)\<lparr>magic := ''CIFF''\<rparr>\<rparr>"
proof -
  show le: "pos (ciff_file s) + 4 \<le> length (content (ciff_file s))"
  proof (rule ccontr)
    assume "\<not> ?thesis"
    from read_short [OF this] assms show False
      by (simp add: read_magic_def Let_def split: prod.splits)
  qed
  from assms show "decode_ascii (take 4 (drop (pos (ciff_file s)) (content (ciff_file s)))) = Inr ''CIFF''"
    by (simp add: read_magic_def read_eq [OF le] Let_def split: sum.splits if_splits)
  from assms show "s' = s\<lparr>ciff_file := (ciff_file s)\<lparr>pos := pos (ciff_file s) + 4\<rparr>,
                bytes_read := bytes_read s + 4,
                new_ciff := (new_ciff s)\<lparr>magic := ''CIFF''\<rparr>\<rparr>"
    by (simp add: read_magic_def read_eq [OF le] Let_def split: sum.splits if_splits)
qed

lemma read_header_size_None:
  assumes "read_header_size s = (None, s')"
  shows "pos (ciff_file s) + 8 \<le> length (content (ciff_file s))"
    and "s' = s\<lparr>ciff_file := (ciff_file s)\<lparr>pos := pos (ciff_file s) + 8\<rparr>,
                bytes_read := bytes_read s + 8,
                new_ciff := (new_ciff s)\<lparr>header_size :=
                   le_int (take 8 (drop (pos (ciff_file s)) (content (ciff_file s))))\<rparr>\<rparr>"
    and "38 \<le> le_int (take 8 (drop (pos (ciff_file s)) (content (ciff_file s))))"
proof -
  show le: "pos (ciff_file s) + 8 \<le> length (content (ciff_file s))"
  proof (rule ccontr)
    assume "\<not> ?thesis"
    from read_short [OF this] assms show False
      by (simp add: read_header_size_def Let_def split: prod.splits)
  qed
  from assms show "s' = s\<lparr>ciff_file := (ciff_file s)\<lparr>pos := pos (ciff_file s) + 8\<rparr>,
                bytes_read := bytes_read s + 8,
                new_ciff := (new_ciff s)\<lparr>header_size :=
                   le_int (take 8 (drop (pos (ciff_file s)) (content (ciff_file s))))\<rparr>\<rparr>"
    by (simp add: read_header_size_def read_eq [OF le] unpack_Q_def Let_def split: sum.splits if_splits)
  from assms show "38 \<le> le_int (take 8 (drop (pos (ciff_file s)) (content (ciff_file s))))"
    by (simp add: read_header_size_def read_eq [OF le] unpack_Q_def Let_def split: sum.splits if_splits)
qed

lemma read_content_size_None:
  assumes "read_content_size s = (None, s')"
  shows "pos (ciff_file s) + 8 \<le> length (content (ciff_file s))"
    and "s' = s\<lparr>ciff_file := (ciff_file s)\<lparr>pos := pos (ciff_file s) + 8\<rparr>,
                bytes_read := bytes_read s + 8,
                new_ciff := (new_ciff s)\<lparr>content_size :=
                   le_int (take 8 (drop (pos (ciff_file s)) (content (ciff_file s))))\<rparr>\<rparr>"
proof -
  show le: "pos (ciff_file s) + 8 \<le> length (content (ciff_file s))"
  proof (rule ccontr)
    assume "\<not> ?thesis"
    from read_short [OF this] assms show False
      by (simp add: read_content_size_def Let_def split: prod.splits)
  qed
  from assms show "s' = s\<lparr>ciff_file := (ciff_file s)\<lparr>pos := pos (ciff_file s) + 8\<rparr>,
                bytes_read := bytes_read s + 8,
                new_ciff := (new_ciff s)\<lparr>content_size :=
                   le_int (take 8 (drop (pos (ciff_file s)) (content (ciff_file s))))\<rparr>\<rparr>"
    by (simp add: read_content_size_def read_eq [OF le] unpack_Q_def Let_def split: sum.splits if_splits)
qed

lemma read_width_None:
  assumes "read_width s = (None, s')"
  shows "pos (ciff_file s) + 8 \<le> length (content (ciff_file s))"
    and "s' = s\<lparr>ciff_file := (ciff_file s)\<lparr>pos := pos (ciff_file s) + 8\<rparr>,
                bytes_read := bytes_read s + 8,
                new_ciff := (new_ciff s)\<lparr>width :=
                   le_int (take 8 (drop (pos (ciff_file s)) (content (ciff_file s))))\<rparr>\<rparr>"
proof -
  show le: "pos (ciff_file s) + 8 \<le> length (content (ciff_file s))"
  proof (rule ccontr)
    assume "\<not> ?thesis"
    from read_short [OF this] assms show False
      by (simp add: read_width_def Let_def split: prod.splits)
  qed
  from assms show "s' = s\<lparr>ciff_file := (ciff_file s)\<lparr>pos := pos (ciff_file s) + 8\<rparr>,
                bytes_read := bytes_read s + 8,
                new_ciff := (new_ciff s)\<lparr>width :=
                   le_int (take 8 (drop (pos (ciff_file s)) (content (ciff_file s))))\<rparr>\<rparr>"
    by (simp add: read_width_def read_eq [OF le] unpack_Q_def Let_def split: sum.splits if_splits)
qed

lemma read_height_None:
  assumes "read_height s = (None, s')"
  shows "pos (ciff_file s) + 8 \<le> length (content (ciff_file s))"
    and "s' = s\<lparr>ciff_file := (ciff_file s)\<lparr>pos := pos (ciff_file s) + 8\<rparr>,
                bytes_read := bytes_read s + 8,
                new_ciff := (new_ciff s)\<lparr>height :=
                   le_int (take 8 (drop (pos (ciff_file s)) (content (ciff_file s))))\<rparr>\<rparr>"
    and "content_size (new_ciff s) = width (new_ciff s) * le_int (take 8 (drop (pos (ciff_file s)) (content (ciff_file s)))) * 3"
proof -
  show le: "pos (ciff_file s) + 8 \<le> length (content (ciff_file s))"
  proof (rule ccontr)
    assume "\<not> ?thesis"
    from read_short [OF this] assms show False
      by (simp add: read_height_def Let_def split: prod.splits)
  qed
  from assms show "s' = s\<lparr>ciff_file := (ciff_file s)\<lparr>pos := pos (ciff_file s) + 8\<rparr>,
                bytes_read := bytes_read s + 8,
                new_ciff := (new_ciff s)\<lparr>height :=
                   le_int (take 8 (drop (pos (ciff_file s)) (content (ciff_file s))))\<rparr>\<rparr>"
    by (simp add: read_height_def read_eq [OF le] unpack_Q_def Let_def split: sum.splits if_splits)
  from assms show "content_size (new_ciff s) = width (new_ciff s) * le_int (take 8 (drop (pos (ciff_file s)) (content (ciff_file s)))) * 3"
    by (simp add: read_height_def read_eq [OF le] unpack_Q_def Let_def split: sum.splits if_splits)
qed

lemma header_None:
  assumes "read_magic (initial data) = (None, s1)" "read_header_size s1 = (None, s2)"
    "read_content_size s2 = (None, s3)" "read_width s3 = (None, s4)"
    "read_height s4 = (None, s5)"
  shows "36 \<le> length data"
    and "decode_ascii (take 4 data) = Inr ''CIFF''"
    and "38 \<le> field_at data 4"
    and "field_at data 12 = field_at data 20 * field_at data 28 * 3"
    and "new_ciff s5 = CIFF_init\<lparr>magic := ''CIFF'', header_size := field_at data 4,
           content_size := field_at data 12, width := field_at data 20,
           height := field_at data 28\<rparr>"
    and "bytes_read s5 = 36"
    and "ciff_file s5 = \<lparr>content = data, pos = 36\<rparr>"
proof -
  note m = read_magic_None [OF assms(1)]
  have s1: "new_ciff s1 = CIFF_init\<lparr>magic := ''CIFF''\<rparr>" "bytes_read s1 = 4"
    "ciff_file s1 = \<lparr>content = data, pos = 4\<rparr>"
    using m(3) by (simp_all add: initial_def open_rb_def)
  note h = read_header_size_None [OF assms(2)]
  have s2: "new_ciff s2 = CIFF_init\<lparr>magic := ''CIFF'', header_size := field_at data 4\<rparr>"
    "bytes_read s2 = 12" "ciff_file s2 = \<lparr>content = data, pos = 12\<rparr>"
    using h(2) s1 by (simp_all add: field_at_def)
  note c = read_content_size_None [OF assms(3)]
  have s3: "new_ciff s3 = CIFF_init\<lparr>magic := ''CIFF'', header_size := field_at data 4,
       content_size := field_at data 12\<rparr>"
    "bytes_read s3 = 20" "ciff_file s3 = \<lparr>content = data, pos = 20\<rparr>"
    using c(2) s2 by (simp_all add: field_at_def)
  note w = read_width_None [OF assms(4)]
  have s4: "new_ciff s4 = CIFF_init\<lparr>magic := ''CIFF'', header_size := field_at data 4,
       content_size := field_at data 12, width := field_at data 20\<rparr>"
    "bytes_read s4 = 28" "ciff_file s4 = \<lparr>content = data, pos = 28\<rparr>"
    using w(2) s3 by (simp_all add: field_at_def)
  note g = read_height_None [OF assms(5)]
  show "new_ciff s5 = CIFF_init\<lparr>magic := ''CIFF'', header_size := field_at data 4,
           content_size := field_at data 12, width := field_at data 20,
           height := field_at data 28\<rparr>"
    and "bytes_read s5 = 36" and "ciff_file s5 = \<lparr>content = data, pos = 36\<rparr>"
    using g(2) s4 by (simp_all add: field_at_def)
  show "36 \<le> length data" using g(1) s4 by simp
  show "decode_ascii (take 4 data) = Inr ''CIFF''"
    using m(2) by (simp add: initial_def open_rb_def)
  show "38 \<le> field_at data 4" using h(3) s1 by (simp add: field_at_def)
  show "field_at data 12 = field_at data 20 * field_at data 28 * 3"
    using g(3) s4 by (simp add: field_at_def)
qed

lemma read_caption_None:
  assumes "read_caption s = Some (None, s')" "synced s"
  shows "synced s' \<and> content (ciff_file s') = content (ciff_file s)
     \<and> (\<exists>cap. new_ciff s' = (new_ciff s)\<lparr>caption := cap\<rparr> \<and> CHR 0x0A \<notin> set cap)"
proof -
  obtain c f where rd: "read (Suc 0) (ciff_file s) = (c, f)"
    by (cases "read (Suc 0) (ciff_file s)")
  from assms(1) rd have c1: "length c = Suc 0"
    by (simp add: read_caption_def Let_def split: if_splits)
  let ?s1 = "s\<lparr>ciff_file := f, bytes_read := bytes_read s + 1\<rparr>"
  from assms(1) rd c1 obtain ch cap s2 where dec: "decode_ascii c = Inr ch"
    and lp: "caption_loop [] ch ?s1 = Some (Inr cap, s2)"
    and s': "s' = s2\<lparr>new_ciff := (new_ciff s2)\<lparr>caption := cap\<rparr>\<rparr>"
    by (auto simp: read_caption_def Let_def split: sum.splits option.splits)
  have l1: "length ch = 1" using decode_ascii_length [OF dec] c1 by simp
  have sy1: "synced ?s1" by (rule read1_synced(1) [OF assms(2) rd c1])
  from caption_loop_Inr [OF lp] sy1 l1
  have "synced s2 \<and> new_ciff s2 = new_ciff ?s1
      \<and> content (ciff_file s2) = content (ciff_file ?s1) \<and> CHR 0x0A \<notin> set cap"
    by simp
  then show ?thesis
    using s' read1_synced(2) [OF assms(2) rd c1] by (auto simp: synced_def)
qed

lemma read_tags_None:
  assumes "read_tags s = Some (None, s')" "synced s"
  shows "synced s' \<and> content (ciff_file s') = content (ciff_file s)
     \<and> bytes_read s' = header_size (new_ciff s)
     \<and> (\<exists>tgs. new_ciff s' = (new_ciff s)\<lparr>tags := tgs\<rparr> \<and> (\<forall>t\<in>set tgs. tag_ok t))"
proof -
  from assms(1) obtain tgs s2 where lp: "tag_loop [] [] s = Some (Inr tgs, s2)"
    and s': "s' = s2\<lparr>new_ciff := (new_ciff s2)\<lparr>tags := tgs\<rparr>\<rparr>"
    by (auto simp: read_tags_def split: sum.splits option.splits)
  from tag_loop_Inr [OF lp] assms(2)
  have "synced s2 \<and> new_ciff s2 = new_ciff s \<and> content (ciff_file s2) = content (ciff_file s)
      \<and> bytes_read s2 = header_size (new_ciff s) \<and> (\<forall>t\<in>set tgs. tag_ok t)"
    by simp
  then show ?thesis using s' by (auto simp: synced_def)
qed

lemma check_eof_None:
  assumes "check_eof s = (None, s')" "synced s"
  shows "pos (ciff_file s) = length (content (ciff_file s))"
    and "new_ciff s' = new_ciff s" and "bytes_read s' = bytes_read s"
    and "ciff_file s' = ciff_file s"
  using assms by (auto simp: check_eof_def read_def Let_def synced_def split: if_splits)

lemma initial_synced: "synced (initial data)"
  by (simp add: synced_def initial_def open_rb_def)

lemma parse_ciff_run_alt:
  "parse_ciff_run data = (case try_body (initial data) of None \<Rightarrow> None | Some r \<Rightarrow> Some (handler r, r))"
  by (simp add: parse_ciff_run_def initial_def)

lemma try_body_None:
  assumes "try_body (initial data) = Some (None, s)"
  shows "is_valid (new_ciff s)" and "error_message (new_ciff s) = []"
    and "magic (new_ciff s) = ''CIFF''"
    and "header_size (new_ciff s) = field_at data 4"
    and "content_size (new_ciff s) = field_at data 12"
    and "width (new_ciff s) = field_at data 20"
    and "height (new_ciff s) = field_at data 28"
    and "38 \<le> field_at data 4"
    and "field_at data 12 = field_at data 20 * field_at data 28 * 3"
    and "CHR 0x0A \<notin> set (caption (new_ciff s))"
    and "\<forall>t\<in>set (tags (new_ciff s)). tag_ok t"
    and "int (length (pixels (new_ciff s))) = field_at data 20 * field_at data 28"
    and "ciff_file s = \<lparr>content = data, pos = length data\<rparr>"
    and "bytes_read s = int (length data)"
    and "int (length data) = field_at data 4 + field_at data 12"
proof -
  from try_body_NoneD [OF assms] obtain s1 s2 s3 s4 s5 s6 s7 s8 where
    st: "read_magic (initial data) = (None, s1)" "read_header_size s1 = (None, s2)"
      "read_content_size s2 = (None, s3)" "read_width s3 = (None, s4)"
      "read_height s4 = (None, s5)"
    and cp: "read_caption s5 = Some (None, s6)"
    and tg: "read_tags s6 = Some (None, s7)"
    and px: "pixel_loop s7 = Some (None, s8)"
    and ef: "check_eof s8 = (None, s)"
    by blast
  note h = header_None [OF st]
  show hs: "38 \<le> field_at data 4" by (rule h(3))
  show cs: "field_at data 12 = field_at data 20 * field_at data 28 * 3" by (rule h(4))
  have sy5: "synced s5" using h(1,6,7) by (simp add: synced_def)
  from read_caption_None [OF cp sy5] obtain cap where
    sy6: "synced s6" and c6: "content (ciff_file s6) = data"
    and n6: "new_ciff s6 = (new_ciff s5)\<lparr>caption := cap\<rparr>" and cap: "CHR 0x0A \<notin> set cap"
    using h(7) by auto
  from read_tags_None [OF tg sy6] obtain tgs where
    sy7: "synced s7" and c7: "content (ciff_file s7) = data"
    and b7: "bytes_read s7 = header_size (new_ciff s6)"
    and n7: "new_ciff s7 = (new_ciff s6)\<lparr>tags := tgs\<rparr>" and tgs: "\<forall>t\<in>set tgs. tag_ok t"
    using c6 by auto
  have f7: "header_size (new_ciff s7) = field_at data 4"
    "content_size (new_ciff s7) = field_at data 12" "pixels (new_ciff s7) = []"
    using n7 n6 h(5) by (simp_all add: CIFF_init_def)
  have b7': "bytes_read s7 = field_at data 4" using b7 n6 h(5) by simp
  have nn: "0 \<le> field_at data 12" by (simp add: field_at_def le_int_nonneg)
  have pre1: "bytes_read s7 \<le> header_size (new_ciff s7) + content_size (new_ciff s7)"
    using f7 b7' nn by simp
  have pre2: "3 dvd (header_size (new_ciff s7) + content_size (new_ciff s7) - bytes_read s7)"
    using f7 b7' cs by simp
  from pixel_loop_None [OF px] sy7 pre1 pre2 obtain pxs where
    sy8: "synced s8" and c8: "content (ciff_file s8) = content (ciff_file s7)"
    and b8: "bytes_read s8 = header_size (new_ciff s7) + content_size (new_ciff s7)"
    and n8: "new_ciff s8 = (new_ciff s7)\<lparr>pixels := pixels (new_ciff s7) @ pxs\<rparr>"
    and l8: "3 * int (length pxs) =
        header_size (new_ciff s7) + content_size (new_ciff s7) - bytes_read s7"
    by blast
  note e = check_eof_None [OF ef sy8]
  have nc: "new_ciff s = CIFF_init\<lparr>magic := ''CIFF'', header_size := field_at data 4,
           content_size := field_at data 12, width := field_at data 20,
           height := field_at data 28, caption := cap, tags := tgs, pixels := pxs\<rparr>"
    using e(2) n8 n7 n6 h(5) by (simp add: CIFF_init_def)
  show "is_valid (new_ciff s)" and "error_message (new_ciff s) = []"
    and "magic (new_ciff s) = ''CIFF''"
    and "header_size (new_ciff s) = field_at data 4"
    and "content_size (new_ciff s) = field_at data 12"
    and "width (new_ciff s) = field_at data 20"
    and "height (new_ciff s) = field_at data 28"
    by (simp_all add: nc CIFF_init_def)
  show "CHR 0x0A \<notin> set (caption (new_ciff s))" using cap by (simp add: nc)
  show "\<forall>t\<in>set (tags (new_ciff s)). tag_ok t" using tgs by (simp add: nc)
  have "3 * int (length pxs) = 3 * (field_at data 20 * field_at data 28)"
    using l8 f7 b7' cs by simp
  then show "int (length (pixels (new_ciff s))) = field_at data 20 * field_at data 28"
    by (simp add: nc)
  have p8: "pos (ciff_file s8) = length data" using e(1) c8 c7 by simp
  show "ciff_file s = \<lparr>content = data, pos = length data\<rparr>"
    using e(4) p8 c8 c7 by (cases "ciff_file s8") simp
  show bl: "bytes_read s = int (length data)"
    using e(3) sy8 p8 by (simp add: synced_def)
  show "int (length data) = field_at data 4 + field_at data 12"
    using bl e(3) b8 f7 by simp
qed

lemma parse_ciff_run_total: "\<exists>r e s. parse_ciff_run data = Some (r, e, s)"
proof -
  obtain x where "try_body (initial data) = Some x" using try_body_total by blast
  then show ?thesis by (cases x) (simp add: parse_ciff_run_alt)
qed

lemma parse_ciff_file_run:
  "parse_ciff_file data = Some r \<longleftrightarrow> (\<exists>e s. parse_ciff_run data = Some (r, e, s))"
  by (auto simp: parse_ciff_file_def)

lemma run_raised:
  assumes "parse_ciff_run data = Some (r, Some x, s)"
  shows "\<not> is_valid r" and "error_message r = str_exn x" and "str_exn x \<noteq> []"
proof -
  from assms have tb: "try_body (initial data) = Some (Some x, s)"
    and r: "r = handler (Some x, s)"
    by (auto simp: parse_ciff_run_alt split: option.splits)
  show "\<not> is_valid r" and "error_message r = str_exn x"
    using r by (simp_all add: handler_def)
  show "str_exn x \<noteq> []" using try_body_raises [of "initial data"] tb
    by (simp add: raises_ok_def)
qed

lemma run_returned:
  assumes "parse_ciff_run data = Some (r, None, s)"
  shows "try_body (initial data) = Some (None, s)" and "r = new_ciff s"
  using assms by (auto simp: parse_ciff_run_alt handler_def split: option.splits)

lemma valid_run:
  assumes "parse_ciff_file data = Some r" "is_valid r"
  shows "\<exists>s. try_body (initial data) = Some (None, s) \<and> r = new_ciff s"
proof -
  from assms(1) obtain e s where run: "parse_ciff_run data = Some (r, e, s)"
    by (auto simp: parse_ciff_file_run)
  show ?thesis
  proof (cases e)
    case None
    with run_returned [of data r s] run show ?thesis by blast
  next
    case (Some x)
    with run_raised(1) [of data r x s] run assms(2) show ?thesis by simp
  qed
qed

lemma tag_ok_props:
  assumes "tag_ok t"
  shows "t \<noteq> []" and "last t = CHR 0x00" and "CHR 0x00 \<notin> set (butlast t)"
    and "count_list t (CHR 0x00) = 1"
  using assms by (auto simp: tag_ok_def)

lemma field_at_butlast:
  "off + 8 < length data \<Longrightarrow> field_at (butlast data) off = field_at data off"
  by (simp add: field_at_def butlast_conv_take drop_take min_def)

lemma field_at_append:
  "off + 8 \<le> length data \<Longrightarrow> field_at (data @ extra) off = field_at data off"
  by (simp add: field_at_def)

lemma valid_length:
  assumes "parse_ciff_file data = Some r" "is_valid r"
  shows "int (length data) = field_at data 4 + field_at data 12"
    and "36 \<le> length data"
proof -
  from valid_run [OF assms] obtain s where tb: "try_body (initial data) = Some (None, s)"
    by blast
  show "int (length data) = field_at data 4 + field_at data 12"
    by (rule try_body_None(15) [OF tb])
  from try_body_NoneD [OF tb] header_None(1) show "36 \<le> length data" by blast
qed

lemma parse_ciff_file_total: "\<exists>r. parse_ciff_file data = Some r"
  using parse_ciff_run_total [of data] by (auto simp: parse_ciff_file_run)

lemma wrong_length_invalid:
  assumes "int (length data) \<noteq> field_at data 4 + field_at data 12"
  shows "\<exists>r. parse_ciff_file data = Some r \<and> \<not> is_valid r"
proof -
  obtain r where r: "parse_ciff_file data = Some r" using parse_ciff_file_total by blast
  have "\<not> is_valid r"
  proof
    assume "is_valid r"
    from valid_length(1) [OF r this] assms show False by simp
  qed
  with r show ?thesis by blast
qed

section \<open>Failures in the fixed part of the header\<close>

lemma and_then_simps:
  "and_then (Some (None, s)) k = k s"
  "and_then (Some (Some e, s)) k = Some (Some e, s)"
  by (simp_all add: and_then_def)

lemma decode_ascii_from_ok:
  "\<forall>b\<in>set bs. b < 0x80 \<Longrightarrow>
     decode_ascii_from i bs = Inr (map (\<lambda>b. char_of (unat b)) bs)"
  by (induction bs arbitrary: i) simp_all

lemma decode_ascii_ok:
  "\<forall>b\<in>set bs. b < 0x80 \<Longrightarrow> decode_ascii bs = Inr (map (\<lambda>b. char_of (unat b)) bs)"
  unfolding decode_ascii_def by (rule decode_ascii_from_ok)

lemma byte_of_char:
  fixes a :: byte
  assumes "char_of (unat a) = c"
  shows "a = of_nat (of_char c)"
proof -
  have "of_char c = unat a mod 256" using assms by (auto simp: of_char_of)
  also have "\<dots> = unat a" using unsigned_less [of a, where ?'a = nat] by simp
  finally show ?thesis by simp
qed

lemma decode_CIFF: "decode_ascii [0x43, 0x49, 0x46, 0x46] = Inr ''CIFF''"
  by code_simp

lemma spells_CIFF:
  assumes "map (\<lambda>b. char_of (unat b)) bs = ''CIFF''"
  shows "bs = [0x43, 0x49, 0x46, 0x46 :: byte]"
proof -
  from assms obtain a b c d where bs: "bs = [a, b, c, d]"
    and ch: "char_of (unat a) = CHR ''C''" "char_of (unat b) = CHR ''I''"
      "char_of (unat c) = CHR ''F''" "char_of (unat d) = CHR ''F''"
    by (auto simp: map_eq_Cons_conv)
  from ch [THEN byte_of_char] show ?thesis by (simp add: bs)
qed

section \<open>The example files, evaluated\<close>

lemma example_file_parse: "parse_ciff_file example_file = Some example_result"
  by code_simp

lemma nul_caption_file_parse: "parse_ciff_file nul_caption_file = Some nul_caption_result"
  by code_simp

section \<open>The claims\<close>

text \<open>
  C1. For every file, \<^verbatim>\<open>parse_ciff_file\<close> returns an object and no exception leaves it:
  the run ends and hands back a record. The record is valid exactly when nothing was
  raised inside the \<^verbatim>\<open>try\<close>, so every failure path gives \<open>is_valid = False\<close>; and the
  error message is empty exactly when the record is valid.
\<close>

theorem parse_never_raises:
  "\<exists>r e s. parse_ciff_run data = Some (r, e, s) \<and> parse_ciff_file data = Some r
     \<and> (is_valid r \<longleftrightarrow> e = None) \<and> (is_valid r \<longleftrightarrow> error_message r = [])"
proof -
  obtain r e s where run: "parse_ciff_run data = Some (r, e, s)"
    using parse_ciff_run_total by blast
  have pf: "parse_ciff_file data = Some r" using run by (auto simp: parse_ciff_file_run)
  have "(is_valid r \<longleftrightarrow> e = None) \<and> (is_valid r \<longleftrightarrow> error_message r = [])"
  proof (cases e)
    case None
    with run have tb: "try_body (initial data) = Some (None, s)" and r: "r = new_ciff s"
      using run_returned [of data r s] by simp_all
    from try_body_None(1,2) [OF tb] r None show ?thesis by simp
  next
    case (Some x)
    with run_raised [of data r x s] run show ?thesis by simp
  qed
  with run pf show ?thesis by blast
qed

text \<open>
  C2. The file of the scenario (magic \<open>CIFF\<close>, header size 39, content size 3, width 1,
  height 1, empty caption, tag bytes \<open>x\<close> and null, pixel bytes 10, 20, 30) is parsed to a
  valid record with the single pixel \<open>(10, 20, 30)\<close> and the single tag \<open>x\<close> followed
  by the null.
\<close>

theorem example_scenario:
  "parse_ciff_file example_file =
     Some \<lparr>magic = ''CIFF'', header_size = 39, content_size = 3, width = 1, height = 1,
           caption = [], tags = [[CHR ''x'', CHR 0x00]], pixels = [(10, 20, 30)],
           is_valid = True, error_message = []\<rparr>"
  by code_simp

text \<open>
  C3. A valid result has a header size of at least 38, a content size equal to
  width times height times 3, and as many pixels as width times height.
\<close>

theorem valid_sizes:
  assumes "parse_ciff_file data = Some r" "is_valid r"
  shows "38 \<le> header_size r \<and> content_size r = width r * height r * 3
     \<and> int (length (pixels r)) = width r * height r"
proof -
  from valid_run [OF assms] obtain s where tb: "try_body (initial data) = Some (None, s)"
    and r: "r = new_ciff s" by blast
  note f = try_body_None [OF tb]
  show ?thesis using f(4,5,6,7,8,9,12) by (simp add: r)
qed

text \<open>The example file satisfies the hypotheses, and the three facts hold of its result.\<close>

theorem valid_sizes_witness:
  "parse_ciff_file example_file = Some example_result \<and> is_valid example_result
   \<and> 38 \<le> header_size example_result
   \<and> content_size example_result = width example_result * height example_result * 3
   \<and> int (length (pixels example_result)) = width example_result * height example_result"
proof -
  have v: "is_valid example_result" by (simp add: example_result_def)
  from valid_sizes [OF example_file_parse v] example_file_parse v show ?thesis by simp
qed

text \<open>
  C4, as the code has it. The caption of a valid result contains no newline character.
  (Null characters are not excluded: the caption loop stops at the newline and appends
  every other ASCII character.)
\<close>

theorem valid_caption_no_newline:
  assumes "parse_ciff_file data = Some r" "is_valid r"
  shows "CHR 0x0A \<notin> set (caption r)"
proof -
  from valid_run [OF assms] obtain s where tb: "try_body (initial data) = Some (None, s)"
    and r: "r = new_ciff s" by blast
  show ?thesis using try_body_None(10) [OF tb] by (simp add: r)
qed

text \<open>The file with the null caption satisfies the hypotheses.\<close>

theorem valid_caption_no_newline_witness:
  "parse_ciff_file nul_caption_file = Some nul_caption_result \<and> is_valid nul_caption_result
   \<and> CHR 0x0A \<notin> set (caption nul_caption_result)"
proof -
  have v: "is_valid nul_caption_result" by (simp add: nul_caption_result_def)
  from valid_caption_no_newline [OF nul_caption_file_parse v] nul_caption_file_parse v
  show ?thesis by simp
qed

text \<open>
  The claim as stated also excludes the null character; that part fails: this file is
  parsed to a valid record whose caption is one null character.
\<close>

theorem caption_with_null_counterexample:
  "parse_ciff_file nul_caption_file = Some nul_caption_result \<and> is_valid nul_caption_result
   \<and> CHR 0x00 \<in> set (caption nul_caption_result)"
  by code_simp

text \<open>
  C5. The claim: in a valid result the byte at offset \<open>header_size - 1\<close> is the null
  that ends the last tag, so a header that ends with the newline of the caption is never
  valid. The code at such a file: the tag loop is not entered, because the counter
  already equals the header size, and the check of line 301 is inside the loop. The
  result is valid, without tags, and the last header byte is the newline.
\<close>

theorem header_ending_in_newline_accepted:
  "parse_ciff_file no_tags_file = Some no_tags_result \<and> is_valid no_tags_result
   \<and> tags no_tags_result = []
   \<and> no_tags_file ! nat (header_size no_tags_result - 1) = 0x0A"
  by code_simp

text \<open>
  C6. A valid result means that the file is exactly \<open>header_size + content_size\<close> bytes
  long and that all of it was read: the file position and the counter stand at the end.
  Hence the file without its last byte, and the file with one more byte, are both parsed
  to a record that is not valid.
\<close>

theorem valid_exact_length:
  assumes "parse_ciff_file data = Some r" "is_valid r"
  shows "int (length data) = header_size r + content_size r
     \<and> (\<exists>e s. parse_ciff_run data = Some (r, e, s) \<and> pos (ciff_file s) = length data
            \<and> bytes_read s = header_size r + content_size r)
     \<and> (\<exists>r'. parse_ciff_file (butlast data) = Some r' \<and> \<not> is_valid r')
     \<and> (\<forall>b. \<exists>r'. parse_ciff_file (data @ [b]) = Some r' \<and> \<not> is_valid r')"
proof -
  from assms(1) obtain e s where run: "parse_ciff_run data = Some (r, e, s)"
    by (auto simp: parse_ciff_file_run)
  have e: "e = None"
  proof (cases e)
    case (Some x)
    with run_raised(1) [of data r x s] run assms(2) show ?thesis by simp
  qed
  from run_returned [of data r s] run e
  have tb: "try_body (initial data) = Some (None, s)" and r: "r = new_ciff s" by simp_all
  note f = try_body_None [OF tb]
  have len: "int (length data) = field_at data 4 + field_at data 12" by (rule f(15))
  have nn: "0 \<le> field_at data 12" by (simp add: field_at_def le_int_nonneg)
  have big: "38 \<le> length data" using len f(8) nn by linarith
  have a: "int (length data) = header_size r + content_size r"
    using len f(4,5) by (simp add: r)
  have b: "\<exists>e s. parse_ciff_run data = Some (r, e, s) \<and> pos (ciff_file s) = length data
            \<and> bytes_read s = header_size r + content_size r"
    using run f(13,14) a by auto
  have "int (length (butlast data)) \<noteq> field_at (butlast data) 4 + field_at (butlast data) 12"
    using big len by (simp add: field_at_butlast)
  then have c: "\<exists>r'. parse_ciff_file (butlast data) = Some r' \<and> \<not> is_valid r'"
    by (rule wrong_length_invalid)
  have d: "\<exists>r'. parse_ciff_file (data @ [b]) = Some r' \<and> \<not> is_valid r'" for b
  proof -
    have "int (length (data @ [b])) \<noteq> field_at (data @ [b]) 4 + field_at (data @ [b]) 12"
      using big len by (simp add: field_at_append)
    then show ?thesis by (rule wrong_length_invalid)
  qed
  from a b c d show ?thesis by blast
qed

text \<open>The example file satisfies the hypotheses.\<close>

theorem valid_exact_length_witness:
  "parse_ciff_file example_file = Some example_result \<and> is_valid example_result
   \<and> int (length example_file) = header_size example_result + content_size example_result
   \<and> (\<exists>r'. parse_ciff_file (butlast example_file) = Some r' \<and> \<not> is_valid r')
   \<and> (\<forall>b. \<exists>r'. parse_ciff_file (example_file @ [b]) = Some r' \<and> \<not> is_valid r')"
proof -
  have v: "is_valid example_result" by (simp add: example_result_def)
  from valid_exact_length [OF example_file_parse v] example_file_parse v show ?thesis by blast
qed

text \<open>
  C7. When the first 36 bytes can be read, the magic is \<open>CIFF\<close>, the header size field
  is at least 38 and the content size field differs from width times height times 3, the
  result is not valid, its message is the one of line 262, the file position is 36, and
  caption, tags and pixels are still empty.
\<close>

theorem content_size_mismatch:
  assumes "36 \<le> length data" and "take 4 data = [0x43, 0x49, 0x46, 0x46]"
    and "38 \<le> field_at data 4"
    and "field_at data 12 \<noteq> field_at data 20 * field_at data 28 * 3"
  shows "\<exists>r e s. parse_ciff_run data = Some (r, e, s) \<and> parse_ciff_file data = Some r
     \<and> \<not> is_valid r
     \<and> error_message r = ''Invalid image format: content size not equal to width*height*3''
     \<and> pos (ciff_file s) = 36 \<and> caption r = [] \<and> tags r = [] \<and> pixels r = []"
proof -
  have dec: "decode_ascii (take 4 data) = Inr ''CIFF''"
    unfolding assms(2) by (rule decode_CIFF)
  let ?f = "\<lambda>n. \<lparr>content = data, pos = n\<rparr>"
  let ?c1 = "CIFF_init\<lparr>magic := ''CIFF''\<rparr>"
  let ?c2 = "?c1\<lparr>header_size := field_at data 4\<rparr>"
  let ?c3 = "?c2\<lparr>content_size := field_at data 12\<rparr>"
  let ?c4 = "?c3\<lparr>width := field_at data 20\<rparr>"
  let ?c5 = "?c4\<lparr>height := field_at data 28\<rparr>"
  have s1: "read_magic (initial data) =
      (None, \<lparr>new_ciff = ?c1, bytes_read = 4, ciff_file = ?f 4\<rparr>)"
    using assms(1) dec
    by (simp add: read_magic_def initial_def open_rb_def read_eq Let_def)
  have s2: "read_header_size \<lparr>new_ciff = ?c1, bytes_read = 4, ciff_file = ?f 4\<rparr> =
      (None, \<lparr>new_ciff = ?c2, bytes_read = 12, ciff_file = ?f 12\<rparr>)"
    using assms(1,3)
    by (simp add: read_header_size_def read_eq unpack_Q_def Let_def field_at_def)
  have s3: "read_content_size \<lparr>new_ciff = ?c2, bytes_read = 12, ciff_file = ?f 12\<rparr> =
      (None, \<lparr>new_ciff = ?c3, bytes_read = 20, ciff_file = ?f 20\<rparr>)"
    using assms(1)
    by (simp add: read_content_size_def read_eq unpack_Q_def Let_def field_at_def)
  have s4: "read_width \<lparr>new_ciff = ?c3, bytes_read = 20, ciff_file = ?f 20\<rparr> =
      (None, \<lparr>new_ciff = ?c4, bytes_read = 28, ciff_file = ?f 28\<rparr>)"
    using assms(1)
    by (simp add: read_width_def read_eq unpack_Q_def Let_def field_at_def)
  have s5: "read_height \<lparr>new_ciff = ?c4, bytes_read = 28, ciff_file = ?f 28\<rparr> =
      (Some (Exception ''Invalid image format: content size not equal to width*height*3''),
       \<lparr>new_ciff = ?c5, bytes_read = 36, ciff_file = ?f 36\<rparr>)"
    using assms(1,4)
    by (simp add: read_height_def read_eq unpack_Q_def Let_def field_at_def)
  have run: "parse_ciff_run data =
      Some (?c5\<lparr>is_valid := False, error_message :=
                 ''Invalid image format: content size not equal to width*height*3''\<rparr>,
            Some (Exception ''Invalid image format: content size not equal to width*height*3''),
            \<lparr>new_ciff = ?c5, bytes_read = 36, ciff_file = ?f 36\<rparr>)"
    by (simp add: parse_ciff_run_def try_body_def s1 s2 s3 s4 s5 and_then_simps handler_def)
  show ?thesis
    by (simp add: parse_ciff_file_def run CIFF_init_def)
qed

text \<open>The file with content size 4 satisfies the hypotheses.\<close>

theorem content_size_mismatch_witness:
  "36 \<le> length mismatch_file \<and> take 4 mismatch_file = [0x43, 0x49, 0x46, 0x46]
   \<and> 38 \<le> field_at mismatch_file 4
   \<and> field_at mismatch_file 12 \<noteq> field_at mismatch_file 20 * field_at mismatch_file 28 * 3
   \<and> (\<exists>r e s. parse_ciff_run mismatch_file = Some (r, e, s)
         \<and> parse_ciff_file mismatch_file = Some r \<and> \<not> is_valid r
         \<and> error_message r = ''Invalid image format: content size not equal to width*height*3''
         \<and> pos (ciff_file s) = 36 \<and> caption r = [] \<and> tags r = [] \<and> pixels r = [])"
proof -
  have h1: "36 \<le> length mismatch_file" by (simp add: mismatch_file_def)
  have h2: "take 4 mismatch_file = [0x43, 0x49, 0x46, 0x46]" by (simp add: mismatch_file_def)
  have h3: "38 \<le> field_at mismatch_file 4" by (simp add: mismatch_file_def field_at_def)
  have h4: "field_at mismatch_file 12 \<noteq> field_at mismatch_file 20 * field_at mismatch_file 28 * 3"
    by (simp add: mismatch_file_def field_at_def)
  from content_size_mismatch [OF h1 h2 h3 h4] h1 h2 h3 h4 show ?thesis by blast
qed

text \<open>
  C8. When the first four bytes are ASCII but are not the bytes of \<open>CIFF\<close>, the result is
  not valid and its magic field holds the four characters that were decoded.
\<close>

theorem bad_magic_recorded:
  assumes "4 \<le> length data" and "\<forall>b\<in>set (take 4 data). b < 0x80"
    and "take 4 data \<noteq> [0x43, 0x49, 0x46, 0x46]"
  shows "\<exists>r. parse_ciff_file data = Some r \<and> \<not> is_valid r
     \<and> magic r = map (\<lambda>b. char_of (unat b)) (take 4 data) \<and> length (magic r) = 4
     \<and> magic r \<noteq> ''CIFF'' \<and> error_message r = ''Error parsing magic bytes''"
proof -
  let ?m = "map (\<lambda>b. char_of (unat b)) (take 4 data)"
  have dec: "decode_ascii (take 4 data) = Inr ?m" by (rule decode_ascii_ok [OF assms(2)])
  have ne: "?m \<noteq> ''CIFF''" using spells_CIFF [of "take 4 data"] assms(3) by auto
  have rm: "read_magic (initial data) =
      (Some (Exception ''Error parsing magic bytes''),
       \<lparr>new_ciff = CIFF_init\<lparr>magic := ?m, is_valid := False\<rparr>, bytes_read = 4,
        ciff_file = \<lparr>content = data, pos = 4\<rparr>\<rparr>)"
    using assms(1) dec ne
    by (simp add: read_magic_def initial_def open_rb_def read_eq Let_def)
  have "parse_ciff_file data =
      Some (CIFF_init\<lparr>magic := ?m, is_valid := False,
              error_message := ''Error parsing magic bytes''\<rparr>)"
    by (simp add: parse_ciff_file_def parse_ciff_run_def try_body_def rm and_then_simps
        handler_def)
  then show ?thesis using ne assms(1) by simp
qed

text \<open>The file that starts with \<open>CIGF\<close> satisfies the hypotheses.\<close>

theorem bad_magic_recorded_witness:
  "4 \<le> length bad_magic_file \<and> take 4 bad_magic_file = [0x43, 0x49, 0x47, 0x46]
   \<and> (\<exists>r. parse_ciff_file bad_magic_file = Some r \<and> \<not> is_valid r
         \<and> magic r = ''CIGF'' \<and> error_message r = ''Error parsing magic bytes'')"
proof -
  have h1: "4 \<le> length bad_magic_file" by (simp add: bad_magic_file_def)
  have t: "take 4 bad_magic_file = [0x43, 0x49, 0x47, 0x46]" by (simp add: bad_magic_file_def)
  have h2: "\<forall>b\<in>set (take 4 bad_magic_file). b < 0x80" by (simp add: t)
  have h3: "take 4 bad_magic_file \<noteq> [0x43, 0x49, 0x46, 0x46]" by (simp add: t)
  have m: "map (\<lambda>b. char_of (unat b)) (take 4 bad_magic_file) = ''CIGF''" by code_simp
  from bad_magic_recorded [OF h1 h2 h3] h1 t show ?thesis unfolding m by blast
qed

text \<open>
  C9. For every file the parser comes to an end. The caption loop, the tag loop and the
  pixel loop end from every state: each turn reads from the file, and a short read
  leaves the loop. This holds in particular once the counter is past the header size,
  where the guard of the tag loop can no longer become false: the loop then ends with
  an exception.
\<close>

theorem parse_terminates:
  "(\<exists>r. parse_ciff_file data = Some r)
   \<and> (\<forall>cap char s. \<exists>y. caption_loop cap char s = Some y)
   \<and> (\<forall>tgs tag s. \<exists>y. tag_loop tgs tag s = Some y)
   \<and> (\<forall>s. \<exists>y. pixel_loop s = Some y)
   \<and> (\<forall>tgs tag s. header_size (new_ciff s) < bytes_read s \<longrightarrow>
         (\<exists>e s'. tag_loop tgs tag s = Some (Inl e, s')))"
proof -
  have "\<exists>e s'. tag_loop tgs tag s = Some (Inl e, s')"
    if "header_size (new_ciff s) < bytes_read s" for tgs tag s
  proof -
    obtain y where y: "tag_loop tgs tag s = Some y" using tag_loop_total by blast
    from tag_loop_overshoot_raises [OF y] that y show ?thesis by blast
  qed
  then show ?thesis
    using parse_ciff_file_total [of data] caption_loop_total tag_loop_total pixel_loop_total
    by blast
qed

text \<open>The example file, and the state in which the counter has passed the header size.\<close>

theorem parse_terminates_witness:
  "(\<exists>r. parse_ciff_file example_file = Some r)
   \<and> header_size (new_ciff overshoot_state) < bytes_read overshoot_state
   \<and> (\<exists>e s'. tag_loop [] [] overshoot_state = Some (Inl e, s'))"
proof -
  have h: "header_size (new_ciff overshoot_state) < bytes_read overshoot_state"
    by (simp add: overshoot_state_def)
  from parse_terminates [of example_file] h show ?thesis by blast
qed

text \<open>
  C10. Every tag of a valid result is nonempty, ends with the null character and has no
  other null character: the null occurs exactly once.
\<close>

theorem valid_tags_null_terminated:
  assumes "parse_ciff_file data = Some r" "is_valid r"
  shows "\<forall>t\<in>set (tags r). t \<noteq> [] \<and> last t = CHR 0x00 \<and> CHR 0x00 \<notin> set (butlast t)
           \<and> count_list t (CHR 0x00) = 1"
proof -
  from valid_run [OF assms] obtain s where tb: "try_body (initial data) = Some (None, s)"
    and r: "r = new_ciff s" by blast
  show ?thesis using try_body_None(11) [OF tb] tag_ok_props by (simp add: r)
qed

text \<open>The example file satisfies the hypotheses; its tag is \<open>x\<close> and the null.\<close>

theorem valid_tags_null_terminated_witness:
  "parse_ciff_file example_file = Some example_result \<and> is_valid example_result
   \<and> tags example_result = [[CHR ''x'', CHR 0x00]]
   \<and> last [CHR ''x'', CHR 0x00] = CHR 0x00
   \<and> CHR 0x00 \<notin> set (butlast [CHR ''x'', CHR 0x00])
   \<and> count_list [CHR ''x'', CHR 0x00] (CHR 0x00) = 1"
proof -
  have v: "is_valid example_result" by (simp add: example_result_def)
  have t: "tags example_result = [[CHR ''x'', CHR 0x00]]" by (simp add: example_result_def)
  from valid_tags_null_terminated [OF example_file_parse v]
  have "last [CHR ''x'', CHR 0x00] = CHR 0x00
      \<and> CHR 0x00 \<notin> set (butlast [CHR ''x'', CHR 0x00])
      \<and> count_list [CHR ''x'', CHR 0x00] (CHR 0x00) = 1"
    unfolding t by simp
  with example_file_parse v t show ?thesis by blast
qed

end
